theory Spec2Isabelle
  imports Complex_Main "HOL-Library.AList"
begin

section \<open>PageRank: transition model, sampling estimator, iterative solver\<close>

text \<open>
  A shallow embedding of \<^verbatim>\<open>pagerank.py\<close>.

  \<^item> A Python \<^verbatim>\<open>dict\<close> is an association list with distinct keys, kept in insertion
    order: \<^verbatim>\<open>d[k] = v\<close> is \<open>AList.update k v d\<close> (an existing key keeps its position,
    a new key goes to the end), \<^verbatim>\<open>d[k]\<close> is \<open>getitem d k\<close> and raises \<open>KeyError\<close> on a
    missing key, \<^verbatim>\<open>for k in d\<close> walks \<open>map fst d\<close>.
  \<^item> A Python \<^verbatim>\<open>set\<close> of links is a list without duplicates, in the order in which the
    interpreter iterates over it.
  \<^item> Python floats are idealised: every number is an exact rational (\<open>rat\<close>), so
    \<^verbatim>\<open>0.85\<close> is \<open>17/20\<close> and \<^verbatim>\<open>0.001\<close> is \<open>1/1000\<close>. Rounding errors of binary floating
    point are outside the model.
  \<^item> Every \<^verbatim>\<open>raise\<close> is a value \<open>Inl e\<close> of the result type \<open>error + 'a\<close>.
  \<^item> The global random generator is an explicit source \<open>g :: nat \<Rightarrow> rat\<close>: \<open>g k\<close> is the
    \<open>k\<close>-th number in \<open>[0, 1)\<close> that \<^verbatim>\<open>random.random()\<close> delivers, and every drawing
    function returns the position of the next unread number.
\<close>

subsection \<open>Errors and dictionaries\<close>

datatype error =
    KeyError
  | IndexError
  | ZeroDivisionError
  | ValueError
  | ProbabilityNotInBounds
  | SumProbability rat

type_synonym 'p corpus = "('p \<times> 'p list) list"
type_synonym 'p dist = "('p \<times> rat) list"
type_synonym rng = "nat \<Rightarrow> rat"

definition bindE :: "error + 'a \<Rightarrow> ('a \<Rightarrow> error + 'b) \<Rightarrow> error + 'b" where
  "bindE m f = (case m of Inl e \<Rightarrow> Inl e | Inr x \<Rightarrow> f x)"

text \<open>A \<^verbatim>\<open>for\<close> loop whose body may raise: the first error ends the loop.\<close>

fun foldE :: "('a \<Rightarrow> 's \<Rightarrow> error + 's) \<Rightarrow> 'a list \<Rightarrow> 's \<Rightarrow> error + 's" where
  "foldE f [] s = Inr s"
| "foldE f (x # xs) s = (case f x s of Inl e \<Rightarrow> Inl e | Inr s' \<Rightarrow> foldE f xs s')"

definition py_div :: "rat \<Rightarrow> rat \<Rightarrow> error + rat" where
  "py_div a b = (if b = 0 then Inl ZeroDivisionError else Inr (a / b))"

definition getitem :: "('k \<times> 'v) list \<Rightarrow> 'k \<Rightarrow> error + 'v" where
  "getitem d k = (case map_of d k of None \<Rightarrow> Inl KeyError | Some v \<Rightarrow> Inr v)"

text \<open>\<^verbatim>\<open>d[k] += v\<close> when \<open>k\<close> is a key of \<open>d\<close>, \<^verbatim>\<open>d[k] = v\<close> otherwise.\<close>

definition credit :: "'k \<Rightarrow> rat \<Rightarrow> ('k \<times> rat) list \<Rightarrow> ('k \<times> rat) list" where
  "credit k v d =
     (case map_of d k of
        Some old \<Rightarrow> AList.update k (old + v) d
      | None \<Rightarrow> AList.update k v d)"

subsection \<open>Rounding\<close>

text \<open>
  Python's \<^verbatim>\<open>round(x, ndigits)\<close> rounds to the nearest multiple of \<open>10 ^ (- ndigits)\<close>,
  a tie going to the even neighbour.
\<close>

definition round_half_even :: "rat \<Rightarrow> int" where
  "round_half_even y =
     (let f = \<lfloor>y\<rfloor>; r = y - of_int f
      in if r < 1 / 2 then f
         else if 1 / 2 < r then f + 1
         else if even f then f else f + 1)"

definition py_round :: "rat \<Rightarrow> nat \<Rightarrow> rat" where
  "py_round x ndigits = of_int (round_half_even (x * 10 ^ ndigits)) / 10 ^ ndigits"

subsection \<open>checkProbabilityDictionary\<close>

fun check_loop :: "'p dist \<Rightarrow> rat \<Rightarrow> error + rat" where
  "check_loop [] sumProbabilities = Inr sumProbabilities"
| "check_loop ((p, v) # model) sumProbabilities =
     (if 1 < v \<or> v < 0 then Inl ProbabilityNotInBounds
      else check_loop model (sumProbabilities + v))"

definition checkProbabilityDictionary :: "'p dist \<Rightarrow> error + bool" where
  "checkProbabilityDictionary model =
     bindE (check_loop model 0) (\<lambda>sumProbabilities.
       if py_round sumProbabilities 3 = 1 then Inr True
       else Inl (SumProbability sumProbabilities))"

subsection \<open>transition\_model\<close>

definition transition_model :: "'p corpus \<Rightarrow> 'p \<Rightarrow> rat \<Rightarrow> error + 'p dist" where
  "transition_model corpus page damping_factor =
     bindE (getitem corpus page) (\<lambda>linkedPages.
     bindE (foldE (\<lambda>p tm.
              bindE (py_div (damping_factor * 1) (of_nat (length linkedPages)))
                (\<lambda>v. Inr (AList.update p v tm)))
            linkedPages []) (\<lambda>tm1.
     bindE (py_div (1 - damping_factor) (of_nat (length corpus)))
       (\<lambda>randomSurferProbability.
     bindE (Inr (fold (\<lambda>p tm. credit p randomSurferProbability tm) (map fst corpus) tm1))
       (\<lambda>tm2.
     bindE (if length linkedPages = 0
            then foldE (\<lambda>p tm.
                   bindE (py_div 1 (of_nat (length corpus)))
                     (\<lambda>v. Inr (AList.update p v tm)))
                 (map fst corpus) []
            else Inr tm2) (\<lambda>tm3.
     bindE (checkProbabilityDictionary tm3) (\<lambda>ok. Inr tm3))))))"

subsection \<open>The random source\<close>

text \<open>
  \<^verbatim>\<open>random.choice(seq)\<close> raises \<open>IndexError\<close> on an empty sequence and otherwise returns
  the element at a uniformly drawn index. \<^verbatim>\<open>random.choices(population, weights, k=1)[0]\<close>
  scales one number of the source by the total weight and returns the first element
  whose cumulative weight exceeds it (the last element when none does).
\<close>

definition random_choice :: "rng \<Rightarrow> nat \<Rightarrow> 'a list \<Rightarrow> error + ('a \<times> nat)" where
  "random_choice g k seq =
     (if seq = [] then Inl IndexError
      else Inr (seq ! min (nat \<lfloor>g k * of_nat (length seq)\<rfloor>) (length seq - 1), Suc k))"

fun bisect_pick :: "rat \<Rightarrow> rat \<Rightarrow> ('a \<times> rat) list \<Rightarrow> 'a" where
  "bisect_pick x acc [(a, w)] = a"
| "bisect_pick x acc ((a, w) # rest) =
     (if x < acc + w then a else bisect_pick x (acc + w) rest)"

definition random_choices ::
  "rng \<Rightarrow> nat \<Rightarrow> 'a list \<Rightarrow> rat list \<Rightarrow> error + ('a \<times> nat)" where
  "random_choices g k population weights =
     (if length weights \<noteq> length population then Inl ValueError
      else if weights = [] then Inl IndexError
      else if sum_list weights \<le> 0 then Inl ValueError
      else Inr (bisect_pick (g k * sum_list weights) 0 (zip population weights), Suc k))"

subsection \<open>sample\_pagerank\<close>

text \<open>
  One pass of the body of \<^verbatim>\<open>for i in range(1, n)\<close>. The state is the variable
  \<^verbatim>\<open>pageToSample\<close>, the dictionary \<^verbatim>\<open>estimatedSamplePageRank\<close> and the position in the
  random source.
\<close>

definition sample_step ::
  "'p corpus \<Rightarrow> rat \<Rightarrow> int \<Rightarrow> rng \<Rightarrow> 'p \<times> 'p dist \<times> nat \<Rightarrow> error + ('p \<times> 'p dist \<times> nat)" where
  "sample_step corpus damping_factor n g st =
     (case st of (pageToSample, estimatedSamplePageRank, k) \<Rightarrow>
     bindE (transition_model corpus pageToSample damping_factor) (\<lambda>transitionModel.
     bindE (random_choices g k (map fst transitionModel) (map snd transitionModel))
       (\<lambda>(pageToSample1, k1).
     bindE (py_div 1 (of_int n)) (\<lambda>v.
     bindE (Inr (credit pageToSample1 v estimatedSamplePageRank)) (\<lambda>est.
     bindE (random_choices g k1 [''sampleFromLinkedPage'', ''sampleFromAllPages'']
              [damping_factor, 1 - damping_factor]) (\<lambda>(sampleMethod, k2).
     bindE (if sampleMethod = ''sampleFromLinkedPage''
            then random_choices g k2 (map fst transitionModel) (map snd transitionModel)
            else random_choice g k2 (map fst corpus)) (\<lambda>(pageToSample2, k3).
     Inr (pageToSample2, est, k3))))))))"

fun sample_loop ::
  "'p corpus \<Rightarrow> rat \<Rightarrow> int \<Rightarrow> rng \<Rightarrow> nat \<Rightarrow> 'p \<times> 'p dist \<times> nat \<Rightarrow> error + ('p \<times> 'p dist \<times> nat)" where
  "sample_loop corpus damping_factor n g 0 st = Inr st"
| "sample_loop corpus damping_factor n g (Suc m) st =
     bindE (sample_step corpus damping_factor n g st)
       (sample_loop corpus damping_factor n g m)"

definition sample_pagerank :: "'p corpus \<Rightarrow> rat \<Rightarrow> int \<Rightarrow> rng \<Rightarrow> error + 'p dist" where
  "sample_pagerank corpus damping_factor n g =
     bindE (random_choice g 0 (map fst corpus)) (\<lambda>(pageToSample, k).
     bindE (py_div 1 (of_int n)) (\<lambda>v.
     bindE (sample_loop corpus damping_factor n g (nat (n - 1))
              (pageToSample, [(pageToSample, v)], k)) (\<lambda>(pageToSample', est, k').
     bindE (checkProbabilityDictionary est) (\<lambda>ok. Inr est))))"

subsection \<open>iterate\_pagerank\<close>

text \<open>The dictionary \<^verbatim>\<open>incomingPages\<close>: for a page, the list of pages that link to it.\<close>

definition add_incoming :: "'p \<Rightarrow> 'p \<Rightarrow> ('p \<times> 'p list) list \<Rightarrow> ('p \<times> 'p list) list" where
  "add_incoming page p incomingPages =
     (case map_of incomingPages p of
        Some ps \<Rightarrow> AList.update p (ps @ [page]) incomingPages
      | None \<Rightarrow> AList.update p [page] incomingPages)"

definition incoming_index :: "'p corpus \<Rightarrow> ('p \<times> 'p list) list" where
  "incoming_index corpus =
     fold (\<lambda>(page, linkedTo) incomingPages. fold (add_incoming page) linkedTo incomingPages)
       corpus []"

text \<open>
  The body of \<^verbatim>\<open>for pageToSample in corpus\<close>. The state is the dictionary
  \<^verbatim>\<open>iterativePageRank\<close> and the variable \<^verbatim>\<open>pageRankChange\<close>. A page that is no key of
  \<^verbatim>\<open>incomingPages\<close> takes the \<^verbatim>\<open>continue\<close>: the state is left as it is.
\<close>

definition iterate_page ::
  "'p corpus \<Rightarrow> rat \<Rightarrow> ('p \<times> 'p list) list \<Rightarrow> 'p \<Rightarrow> 'p dist \<times> rat \<Rightarrow> error + ('p dist \<times> rat)" where
  "iterate_page corpus damping_factor incomingPages pageToSample st =
     (case st of (iterativePageRank, pageRankChange) \<Rightarrow>
     bindE (py_div (1 - damping_factor) (of_nat (length corpus))) (\<lambda>newPageRank0.
     case map_of incomingPages pageToSample of
       None \<Rightarrow> Inr (iterativePageRank, pageRankChange)
     | Some incoming \<Rightarrow>
         bindE (foldE (\<lambda>incomingPage newPageRank.
                  bindE (getitem iterativePageRank incomingPage) (\<lambda>r.
                  bindE (getitem corpus incomingPage) (\<lambda>links.
                  bindE (py_div (damping_factor * r) (of_nat (length links))) (\<lambda>t.
                  Inr (newPageRank + t)))))
                incoming newPageRank0) (\<lambda>newPageRank.
         bindE (getitem iterativePageRank pageToSample) (\<lambda>old.
         Inr (AList.update pageToSample newPageRank iterativePageRank,
              pageRankChange + \<bar>old - newPageRank\<bar>)))))"

definition iterate_round ::
  "'p corpus \<Rightarrow> rat \<Rightarrow> ('p \<times> 'p list) list \<Rightarrow> 'p dist \<Rightarrow> error + ('p dist \<times> rat)" where
  "iterate_round corpus damping_factor incomingPages iterativePageRank =
     foldE (iterate_page corpus damping_factor incomingPages) (map fst corpus)
       (iterativePageRank, 0)"

text \<open>
  The \<^verbatim>\<open>while\<close> loop has no bound on its rounds, so it is a partial function: \<open>None\<close>
  is a run that never leaves the loop.
\<close>

partial_function (option) iterate_while ::
  "'p corpus \<Rightarrow> rat \<Rightarrow> ('p \<times> 'p list) list \<Rightarrow> 'p dist \<Rightarrow> rat \<Rightarrow> (error + 'p dist) option" where
  "iterate_while corpus damping_factor incomingPages iterativePageRank pageRankChange =
     (if 1 / 1000 < pageRankChange
      then (case iterate_round corpus damping_factor incomingPages iterativePageRank of
              Inl e \<Rightarrow> Some (Inl e)
            | Inr (ranks, change) \<Rightarrow>
                iterate_while corpus damping_factor incomingPages ranks change)
      else Some (Inr iterativePageRank))"

declare iterate_while.simps [code]

definition initial_ranks :: "'p corpus \<Rightarrow> error + 'p dist" where
  "initial_ranks corpus =
     foldE (\<lambda>p iterativePageRank.
        bindE (py_div 1 (of_nat (length corpus)))
          (\<lambda>v. Inr (AList.update p v iterativePageRank)))
       (map fst corpus) []"

definition iterate_pagerank :: "'p corpus \<Rightarrow> rat \<Rightarrow> (error + 'p dist) option" where
  "iterate_pagerank corpus damping_factor =
     (case initial_ranks corpus of
        Inl e \<Rightarrow> Some (Inl e)
      | Inr iterativePageRank \<Rightarrow>
          iterate_while corpus damping_factor (incoming_index corpus) iterativePageRank 1)"


subsection \<open>Example graphs\<close>

text \<open>Page \<open>1.html\<close> links to the two other pages of a three-page graph.\<close>

definition corpus_three :: "string corpus" where
  "corpus_three =
     [(''1.html'', [''2.html'', ''3.html'']), (''2.html'', [''3.html'']),
      (''3.html'', [''2.html''])]"

text \<open>Two pages without incoming links, both linking to a page without outgoing links.\<close>

definition corpus_sink :: "string corpus" where
  "corpus_sink = [(''A'', [''C'']), (''B'', [''C'']), (''C'', [])]"


text \<open>Two pages linking to each other.\<close>

definition corpus_pair :: "string corpus" where
  "corpus_pair = [(''A'', [''B'']), (''B'', [''A''])]"

text \<open>A page without incoming links that links to a page without outgoing links.\<close>

definition corpus_chain :: "string corpus" where
  "corpus_chain = [(''A'', [''B'']), (''B'', [])]"

text \<open>Two pages linking to each other, and a third page without any link.\<close>

definition corpus_loop :: "string corpus" where
  "corpus_loop = [(''A'', [''B'']), (''B'', [''A'']), (''C'', [])]"

text \<open>Every page has incoming links; the pages are not symmetric.\<close>

definition corpus_cycle :: "string corpus" where
  "corpus_cycle = [(''A'', [''B'', ''C'']), (''B'', [''C'']), (''C'', [''A''])]"

text \<open>A random source: its numbers, in the order in which they are read.\<close>

definition draws :: rng where
  "draws k = (if k = 1 then 1 / 2 else if k = 2 \<or> k = 3 then 9 / 10 else 0)"

subsection \<open>Notions used in the statements\<close>

text \<open>
  A graph as the estimators are handed it: the pages are distinct keys, and the links of
  every page are distinct and lead to pages of the graph.
\<close>

definition well_formed :: "'p corpus \<Rightarrow> bool" where
  "well_formed corpus \<longleftrightarrow>
     distinct (map fst corpus) \<and>
     (\<forall>(p, links) \<in> set corpus. distinct links \<and> set links \<subseteq> fst ` set corpus)"

text \<open>
  The invariant of the loop that builds \<^verbatim>\<open>incomingPages\<close>: a page listed under \<open>p\<close> has
  \<open>p\<close> among the links of one of its items in the graph.
\<close>

definition linked_from :: "'p corpus \<Rightarrow> ('p \<times> 'p list) list \<Rightarrow> bool" where
  "linked_from corpus inc \<longleftrightarrow>
     (\<forall>p qs q. map_of inc p = Some qs \<longrightarrow> q \<in> set qs \<longrightarrow>
        (\<exists>links. (q, links) \<in> set corpus \<and> p \<in> set links))"

text \<open>
  The summand of an incoming page \<open>q\<close> in a new rank, for the ranks \<open>rank\<close>:
  \<^verbatim>\<open>damping_factor * rank[q] / len(corpus[q])\<close>.
\<close>

definition link_term :: "'p corpus \<Rightarrow> rat \<Rightarrow> ('p \<Rightarrow> rat) \<Rightarrow> 'p \<Rightarrow> rat" where
  "link_term corpus d rank q = d * rank q / of_nat (length (the (map_of corpus q)))"

text \<open>
  The rank of \<open>q\<close> in the dictionary of a round in progress: the pages \<open>visited\<close> so far
  in this round hold their value of the end of the round (\<open>new\<close>), the others still that
  of the round before (\<open>old\<close>).
\<close>

definition working_rank :: "'p list \<Rightarrow> 'p dist \<Rightarrow> 'p dist \<Rightarrow> 'p \<Rightarrow> rat" where
  "working_rank visited old new q = the (map_of (if q \<in> set visited then new else old) q)"

text \<open>
  A round as the specification words it, for comparison with \<open>iterate_round\<close>: every new
  rank \<open>(1 - d) / |graph| + d * \<Sum> old(q) / |outLinks(q)|\<close> is computed from the snapshot
  \<open>old\<close> of the previous round, and all new ranks are stored together.
\<close>

definition snapshot_round ::
  "'p corpus \<Rightarrow> rat \<Rightarrow> ('p \<times> 'p list) list \<Rightarrow> 'p dist \<Rightarrow> 'p dist" where
  "snapshot_round corpus d inc old =
     map (\<lambda>p. (p, (1 - d) / of_nat (length corpus)
                 + d * sum_list (map (\<lambda>q. the (map_of old q)
                                        / of_nat (length (the (map_of corpus q))))
                          (case map_of inc p of None \<Rightarrow> [] | Some qs \<Rightarrow> qs))))
       (map fst corpus)"


section \<open>Properties\<close>

subsection \<open>Auxiliary facts\<close>

subsubsection \<open>Errors, dictionaries and the validator\<close>

lemma bindE_Inr [simp]: "bindE (Inr x) f = f x"
  by (simp add: bindE_def)

lemma bindE_Inl [simp]: "bindE (Inl e) f = Inl e"
  by (simp add: bindE_def)

lemma bindE_eq_Inr: "bindE m f = Inr y \<longleftrightarrow> (\<exists>x. m = Inr x \<and> f x = Inr y)"
  by (cases m) simp_all

lemma py_div_nonzero: "b \<noteq> 0 \<Longrightarrow> py_div a b = Inr (a / b)"
  by (simp add: py_div_def)

lemma py_round_one: "py_round 1 3 = 1"
  by (simp add: py_round_def round_half_even_def)

lemma update_fresh: "k \<notin> fst ` set al \<Longrightarrow> AList.update k v al = al @ [(k, v)]"
  by (induction al) auto

lemma foldE_assign:
  "distinct ks \<Longrightarrow> set ks \<inter> fst ` set acc = {} \<Longrightarrow>
   foldE (\<lambda>p tm. Inr (AList.update p (f p) tm)) ks acc = Inr (acc @ map (\<lambda>p. (p, f p)) ks)"
proof (induction ks arbitrary: acc)
  case Nil
  then show ?case by simp
next
  case (Cons k ks)
  have fresh: "k \<notin> fst ` set acc" using Cons.prems by auto
  have "set ks \<inter> fst ` set (acc @ [(k, f k)]) = {}" using Cons.prems by auto
  with Cons show ?case by (simp add: update_fresh [OF fresh])
qed

lemma check_loop_eq:
  "check_loop model s =
     (if \<exists>v \<in> snd ` set model. 1 < v \<or> v < 0 then Inl ProbabilityNotInBounds
      else Inr (s + sum_list (map snd model)))"
  by (induction model s rule: check_loop.induct) (auto simp: algebra_simps)

lemma sum_const_map: "sum_list (map (\<lambda>p. c) ks) = of_nat (length ks) * (c::rat)"
  by (induction ks) (simp_all add: algebra_simps)

lemma map_of_credit:
  "map_of (credit k v d) = (map_of d)(k \<mapsto> (case map_of d k of Some old \<Rightarrow> old + v | None \<Rightarrow> v))"
  by (simp add: credit_def update_conv' split: option.splits)

lemma keys_credit: "fst ` set (credit k v d) = insert k (fst ` set d)"
  by (simp add: credit_def dom_update split: option.splits)

lemma distinct_credit: "distinct (map fst d) \<Longrightarrow> distinct (map fst (credit k v d))"
  by (simp add: credit_def distinct_update split: option.splits)

lemma keys_fold_credit: "fst ` set (fold (\<lambda>p. credit p r) ks tm) = set ks \<union> fst ` set tm"
  by (induction ks arbitrary: tm) (auto simp: keys_credit)

lemma distinct_fold_credit:
  "distinct (map fst tm) \<Longrightarrow> distinct (map fst (fold (\<lambda>p. credit p r) ks tm))"
  by (induction ks arbitrary: tm) (auto simp: distinct_credit)

lemma map_of_fold_credit:
  "distinct ks \<Longrightarrow>
   map_of (fold (\<lambda>p. credit p r) ks tm) q =
     (if q \<in> set ks then Some ((case map_of tm q of Some v \<Rightarrow> v | None \<Rightarrow> 0) + r)
      else map_of tm q)"
proof (induction ks arbitrary: tm)
  case Nil
  then show ?case by simp
next
  case (Cons k ks)
  then have "k \<notin> set ks" and "distinct ks" by auto
  with Cons.IH [of "credit k r tm"] show ?case
    by (auto simp: map_of_credit split: option.splits)
qed

lemma map_of_assigned:
  "map_of (map (\<lambda>p. (p, f p)) ks) q = (if q \<in> set ks then Some (f q) else None)"
  by (induction ks) auto

lemma sum_list_values:
  "distinct (map fst al) \<Longrightarrow>
   sum_list (map snd al) = (\<Sum>k \<in> fst ` set al. the (map_of al k) :: rat)"
proof (induction al)
  case Nil
  then show ?case by simp
next
  case (Cons a al)
  obtain k v where a: "a = (k, v)" by (cases a)
  from Cons.prems a have fresh: "k \<notin> fst ` set al" and d: "distinct (map fst al)" by auto
  have "(\<Sum>x \<in> fst ` set al. the (map_of (a # al) x)) = (\<Sum>x \<in> fst ` set al. the (map_of al x))"
    using fresh a by (intro sum.cong) auto
  with Cons.IH [OF d] fresh a show ?case by simp
qed

lemma value_lookup:
  "distinct (map fst al) \<Longrightarrow> v \<in> snd ` set al \<Longrightarrow> \<exists>k \<in> fst ` set al. map_of al k = Some v"
  by (force simp: image_iff)

lemma checkProbabilityDictionary_eq:
  "checkProbabilityDictionary model =
     (if \<exists>v \<in> snd ` set model. 1 < v \<or> v < 0 then Inl ProbabilityNotInBounds
      else if py_round (sum_list (map snd model)) 3 = 1 then Inr True
      else Inl (SumProbability (sum_list (map snd model))))"
  by (simp add: checkProbabilityDictionary_def check_loop_eq)


subsubsection \<open>The incoming-links index and the errors of a round\<close>

lemma foldE_Inl: "foldE f xs s = Inl e \<Longrightarrow> \<exists>x \<in> set xs. \<exists>s'. f x s' = Inl e"
  by (induction xs arbitrary: s) (auto split: sum.splits)

lemma fold_invariant:
  assumes "P s" and "\<And>x t. x \<in> set xs \<Longrightarrow> P t \<Longrightarrow> P (f x t)"
  shows "P (fold f xs s)"
  using assms
proof (induction xs arbitrary: s)
  case Nil
  then show ?case by simp
next
  case (Cons x xs)
  have "P (f x s)" using Cons.prems by simp
  then show ?case using Cons.prems(2) by (simp add: Cons.IH)
qed

lemma add_incoming_lookup:
  "map_of (add_incoming page t inc) p =
     (if p = t then Some ((case map_of inc t of Some ps \<Rightarrow> ps | None \<Rightarrow> []) @ [page])
      else map_of inc p)"
  by (simp add: add_incoming_def update_conv' split: option.splits)

lemma linked_from_add_incoming:
  assumes s: "linked_from corpus s" and c: "(page, linkedTo) \<in> set corpus"
    and t: "t \<in> set linkedTo"
  shows "linked_from corpus (add_incoming page t s)"
  unfolding linked_from_def
proof (intro allI impI)
  fix p qs q
  assume look: "map_of (add_incoming page t s) p = Some qs" and q: "q \<in> set qs"
  show "\<exists>links. (q, links) \<in> set corpus \<and> p \<in> set links"
  proof (cases "p = t")
    case False
    with look have "map_of s p = Some qs" by (simp add: add_incoming_lookup)
    with s q show ?thesis unfolding linked_from_def by blast
  next
    case True
    show ?thesis
    proof (cases "q = page")
      case True
      with \<open>p = t\<close> t c show ?thesis by blast
    next
      case False
      with look q \<open>p = t\<close> obtain ps where "map_of s t = Some ps" and "q \<in> set ps"
        by (auto simp: add_incoming_lookup split: option.splits)
      with s \<open>p = t\<close> show ?thesis unfolding linked_from_def by blast
    qed
  qed
qed

lemma linked_from_incoming_index: "linked_from corpus (incoming_index corpus)"
  unfolding incoming_index_def
proof (rule fold_invariant [where P = "linked_from corpus"])
  show "linked_from corpus []" by (simp add: linked_from_def)
next
  fix x s assume x: "x \<in> set corpus" and s: "linked_from corpus s"
  obtain page linkedTo where xp: "x = (page, linkedTo)" by (cases x)
  have "linked_from corpus (fold (add_incoming page) linkedTo s)"
  proof (rule fold_invariant [where P = "linked_from corpus"])
    show "linked_from corpus s" by (rule s)
  next
    fix t s' assume "t \<in> set linkedTo" and "linked_from corpus s'"
    then show "linked_from corpus (add_incoming page t s')"
      using x xp by (intro linked_from_add_incoming [where linkedTo = linkedTo]) auto
  qed
  then show "linked_from corpus ((case x of (page, linkedTo) \<Rightarrow> fold (add_incoming page) linkedTo) s)"
    by (simp add: xp)
qed

lemma incoming_index_sound:
  assumes "map_of (incoming_index corpus) p = Some qs" and "q \<in> set qs"
  shows "\<exists>links. (q, links) \<in> set corpus \<and> p \<in> set links"
  using linked_from_incoming_index [of corpus] assms unfolding linked_from_def by blast

lemma iterate_page_errors:
  assumes "corpus \<noteq> []"
    and "\<And>qs q. map_of inc p = Some qs \<Longrightarrow> q \<in> set qs \<Longrightarrow>
           \<exists>links. map_of corpus q = Some links \<and> links \<noteq> []"
    and "iterate_page corpus d inc p st = Inl e"
  shows "e = KeyError"
proof -
  obtain ranks change where st: "st = (ranks, change)" by (cases st)
  have N0: "(of_nat (length corpus) :: rat) \<noteq> 0" using assms(1) by simp
  show ?thesis
  proof (cases "map_of inc p")
    case None
    with assms(3) st N0 show ?thesis by (simp add: iterate_page_def py_div_nonzero)
  next
    case (Some qs)
    let ?body = "\<lambda>incomingPage newPageRank.
                  bindE (getitem ranks incomingPage) (\<lambda>r.
                  bindE (getitem corpus incomingPage) (\<lambda>links.
                  bindE (py_div (d * r) (of_nat (length links))) (\<lambda>t.
                  Inr (newPageRank + t))))"
    have body: "e' = KeyError" if "q \<in> set qs" and "?body q acc = Inl e'" for q acc e'
    proof -
      from assms(2) [OF Some that(1)] obtain links
        where l: "map_of corpus q = Some links" "links \<noteq> []" by blast
      then have "(of_nat (length links) :: rat) \<noteq> 0" by simp
      with that(2) l show ?thesis
        by (auto simp: getitem_def py_div_nonzero bindE_def split: option.splits sum.splits)
    qed
    show ?thesis
    proof (cases "foldE ?body qs ((1 - d) / of_nat (length corpus))")
      case (Inl e')
      from foldE_Inl [OF Inl] body have "e' = KeyError" by blast
      with assms(3) st Some N0 Inl show ?thesis
        by (simp add: iterate_page_def py_div_nonzero)
    next
      case (Inr v)
      with assms(3) st Some N0 show ?thesis
        by (auto simp: iterate_page_def py_div_nonzero getitem_def split: option.splits)
    qed
  qed
qed

lemma iterate_while_error_aux:
  "iterate_while corpus d inc ranks change = Some y \<Longrightarrow> y = Inl e \<Longrightarrow>
   \<exists>r. iterate_round corpus d inc r = Inl e"
proof (induction corpus d inc ranks change y rule: iterate_while.raw_induct [rotated 1, consumes 1])
  case (1 iterate_while corpus d inc ranks change y)
  show ?case
  proof (cases "iterate_round corpus d inc ranks")
    case (Inl e')
    with 1 show ?thesis by (auto split: if_splits)
  next
    case (Inr st)
    with 1 show ?thesis by (cases st) (auto split: if_splits)
  qed
qed

lemma iterate_while_error:
  "iterate_while corpus d inc ranks change = Some (Inl e) \<Longrightarrow>
   \<exists>r. iterate_round corpus d inc r = Inl e"
  by (rule iterate_while_error_aux) simp_all

lemma initial_ranks_returns: "\<exists>r. initial_ranks corpus = Inr r"
proof (cases "initial_ranks corpus")
  case (Inl e)
  from foldE_Inl [OF Inl [unfolded initial_ranks_def]]
  obtain x s' where x: "x \<in> set (map fst corpus)"
    and "bindE (py_div 1 (of_nat (length corpus))) (\<lambda>v. Inr (AList.update x v s')) = Inl e"
    by blast
  moreover from x have "(of_nat (length corpus) :: rat) \<noteq> 0" by auto
  ultimately show ?thesis by (simp add: py_div_nonzero)
next
  case (Inr r)
  then show ?thesis by blast
qed

subsubsection \<open>What one round stores\<close>

lemma incoming_sum:
  "foldE (\<lambda>incomingPage newPageRank.
            bindE (getitem ranks incomingPage) (\<lambda>r.
            bindE (getitem corpus incomingPage) (\<lambda>links.
            bindE (py_div (d * r) (of_nat (length links))) (\<lambda>t.
            Inr (newPageRank + t))))) qs acc = Inr v \<Longrightarrow>
   v = acc + sum_list (map (link_term corpus d (\<lambda>q. the (map_of ranks q))) qs)"
proof (induction qs arbitrary: acc)
  case Nil
  then show ?case by simp
next
  case (Cons q qs)
  from Cons.prems obtain acc' where
    step: "bindE (getitem ranks q) (\<lambda>r.
            bindE (getitem corpus q) (\<lambda>links.
            bindE (py_div (d * r) (of_nat (length links))) (\<lambda>t.
            Inr (acc + t)))) = Inr acc'"
    and rest: "foldE (\<lambda>incomingPage newPageRank.
            bindE (getitem ranks incomingPage) (\<lambda>r.
            bindE (getitem corpus incomingPage) (\<lambda>links.
            bindE (py_div (d * r) (of_nat (length links))) (\<lambda>t.
            Inr (newPageRank + t))))) qs acc' = Inr v"
    by (auto split: sum.splits)
  from step have "acc' = acc + link_term corpus d (\<lambda>q. the (map_of ranks q)) q"
    by (auto simp: bindE_def getitem_def py_div_def link_term_def
        split: sum.splits option.splits if_splits)
  with Cons.IH [OF rest] show ?case by simp
qed

lemma iterate_page_skip:
  "map_of inc p = None \<Longrightarrow> iterate_page corpus d inc p (r, c) = Inr (r', c') \<Longrightarrow> r' = r"
  by (auto simp: iterate_page_def bindE_def split: sum.splits)

lemma iterate_page_assign:
  assumes "map_of inc p = Some qs" and "iterate_page corpus d inc p (r, c) = Inr (r', c')"
  shows "r' = AList.update p ((1 - d) / of_nat (length corpus)
              + sum_list (map (link_term corpus d (\<lambda>q. the (map_of r q))) qs)) r"
proof -
  from assms obtain b v where b: "py_div (1 - d) (of_nat (length corpus)) = Inr b"
    and v: "foldE (\<lambda>incomingPage newPageRank.
            bindE (getitem r incomingPage) (\<lambda>x.
            bindE (getitem corpus incomingPage) (\<lambda>links.
            bindE (py_div (d * x) (of_nat (length links))) (\<lambda>t.
            Inr (newPageRank + t))))) qs b = Inr v"
    and r': "r' = AList.update p v r"
    by (auto simp: iterate_page_def bindE_def split: sum.splits)
  from b have "b = (1 - d) / of_nat (length corpus)"
    by (auto simp: py_div_def split: if_splits)
  with incoming_sum [OF v] r' show ?thesis by simp
qed

lemma iterate_page_other:
  assumes "iterate_page corpus d inc p (r, c) = Inr (r', c')" and "q \<noteq> p"
  shows "map_of r' q = map_of r q"
proof (cases "map_of inc p")
  case None
  from iterate_page_skip [OF None assms(1)] show ?thesis by simp
next
  case (Some qs)
  from iterate_page_assign [OF Some assms(1)] assms(2) show ?thesis
    by (simp add: update_conv')
qed

lemma round_untouched:
  "foldE (iterate_page corpus d inc) ks (r, c) = Inr (r', c') \<Longrightarrow> q \<notin> set ks \<Longrightarrow>
   map_of r' q = map_of r q"
proof (induction ks arbitrary: r c)
  case Nil
  then show ?case by simp
next
  case (Cons k ks)
  from Cons.prems(1) obtain r1 c1 where
    one: "iterate_page corpus d inc k (r, c) = Inr (r1, c1)"
    and rest: "foldE (iterate_page corpus d inc) ks (r1, c1) = Inr (r', c')"
    by (auto split: sum.splits)
  from Cons.prems(2) have "q \<noteq> k" "q \<notin> set ks" by auto
  with Cons.IH [OF rest] iterate_page_other [OF one] show ?case by simp
qed

lemma round_in_place:
  assumes "distinct ks"
    and "foldE (iterate_page corpus d inc) ks (r, c) = Inr (r', c')"
    and "i < length ks" and "map_of inc (ks ! i) = Some qs"
  shows "map_of r' (ks ! i) =
           Some ((1 - d) / of_nat (length corpus)
                 + sum_list (map (link_term corpus d (working_rank (take i ks) r r')) qs))"
  using assms
proof (induction ks arbitrary: r c i)
  case Nil
  then show ?case by simp
next
  case (Cons k ks)
  from Cons.prems(2) obtain r1 c1 where
    one: "iterate_page corpus d inc k (r, c) = Inr (r1, c1)"
    and rest: "foldE (iterate_page corpus d inc) ks (r1, c1) = Inr (r', c')"
    by (auto split: sum.splits)
  from Cons.prems(1) have fresh: "k \<notin> set ks" and dks: "distinct ks" by auto
  have keep: "map_of r' k = map_of r1 k"
    by (rule round_untouched [OF rest fresh])
  show ?case
  proof (cases i)
    case 0
    with Cons.prems(4) have inc: "map_of inc k = Some qs" by simp
    have "working_rank [] r r' = (\<lambda>q. the (map_of r q))"
      by (simp add: working_rank_def fun_eq_iff)
    with iterate_page_assign [OF inc one] keep 0 show ?thesis
      by (simp add: update_conv')
  next
    case (Suc j)
    with Cons.prems have j: "j < length ks" and inc: "map_of inc (ks ! j) = Some qs" by auto
    have same: "working_rank (take j ks) r1 r' q = working_rank (k # take j ks) r r' q" for q
    proof (cases "q = k")
      case True
      have "k \<notin> set (take j ks)" using fresh by (auto dest: in_set_takeD)
      with True keep show ?thesis by (simp add: working_rank_def)
    next
      case False
      with iterate_page_other [OF one] show ?thesis by (simp add: working_rank_def)
    qed
    then have "working_rank (take j ks) r1 r' = working_rank (take (Suc j) (k # ks)) r r'"
      by (simp add: fun_eq_iff)
    with Cons.IH [OF dks rest j inc] Suc show ?thesis by simp
  qed
qed

lemma round_skips_page:
  "foldE (iterate_page corpus d inc) ks (r, c) = Inr (r', c') \<Longrightarrow> map_of inc p = None \<Longrightarrow>
   map_of r' p = map_of r p"
proof (induction ks arbitrary: r c)
  case Nil
  then show ?case by simp
next
  case (Cons k ks)
  from Cons.prems(1) obtain r1 c1 where
    one: "iterate_page corpus d inc k (r, c) = Inr (r1, c1)"
    and rest: "foldE (iterate_page corpus d inc) ks (r1, c1) = Inr (r', c')"
    by (auto split: sum.splits)
  have "map_of r1 p = map_of r p"
  proof (cases "k = p")
    case True
    with one have "iterate_page corpus d inc p (r, c) = Inr (r1, c1)" by simp
    from iterate_page_skip [OF Cons.prems(2) this] show ?thesis by simp
  next
    case False
    then show ?thesis using iterate_page_other [OF one, of p] by simp
  qed
  with Cons.IH [OF rest Cons.prems(2)] show ?case by simp
qed

lemma iterate_round_no_incoming:
  "iterate_round corpus d inc r = Inr (r', c) \<Longrightarrow> map_of inc p = None \<Longrightarrow>
   map_of r' p = map_of r p"
  unfolding iterate_round_def by (rule round_skips_page)

subsubsection \<open>The keys of the ranks\<close>

text \<open>A round only assigns to keys that are present, so the keys and their order stay.\<close>

lemma iterate_page_keys:
  assumes "iterate_page corpus d inc p (r, c) = Inr (r', c')"
  shows "map fst r' = map fst r"
proof (cases "map_of inc p")
  case None
  from iterate_page_skip [OF None assms] show ?thesis by simp
next
  case (Some qs)
  from assms Some obtain old where "map_of r p = Some old"
    by (auto simp: iterate_page_def bindE_def getitem_def split: sum.splits option.splits)
  then have "(p, old) \<in> set r" by (rule map_of_SomeD)
  then have "p \<in> fst ` set r" by force
  with iterate_page_assign [OF Some assms] show ?thesis
    by (simp add: update_keys)
qed

lemma round_keys:
  "foldE (iterate_page corpus d inc) ks (r, c) = Inr (r', c') \<Longrightarrow> map fst r' = map fst r"
proof (induction ks arbitrary: r c)
  case Nil
  then show ?case by simp
next
  case (Cons k ks)
  from Cons.prems(1) obtain r1 c1 where
    one: "iterate_page corpus d inc k (r, c) = Inr (r1, c1)"
    and rest: "foldE (iterate_page corpus d inc) ks (r1, c1) = Inr (r', c')"
    by (auto split: sum.splits)
  from Cons.IH [OF rest] iterate_page_keys [OF one] show ?case by simp
qed

lemma iterate_while_keys:
  "iterate_while corpus d inc ranks change = Some y \<Longrightarrow> y = Inr r \<Longrightarrow>
   map fst r = map fst ranks"
proof (induction corpus d inc ranks change y
    rule: iterate_while.raw_induct [rotated 1, consumes 1])
  case (1 iterate_while corpus d inc ranks change y)
  show ?case
  proof (cases "1 / 1000 < change")
    case False
    with 1 show ?thesis by simp
  next
    case True
    show ?thesis
    proof (cases "iterate_round corpus d inc ranks")
      case (Inl e)
      with 1 True show ?thesis by simp
    next
      case (Inr st)
      obtain r1 c1 where st: "st = (r1, c1)" by (cases st)
      from Inr st have "map fst r1 = map fst ranks"
        unfolding iterate_round_def by (simp add: round_keys)
      moreover from 1(2) True Inr st have "iterate_while corpus d inc r1 c1 = Some y" by simp
      from 1(1) [OF this 1(3)] have "map fst r = map fst r1" .
      ultimately show ?thesis by simp
    qed
  qed
qed

lemma initial_ranks_uniform:
  "distinct (map fst corpus) \<Longrightarrow>
   initial_ranks corpus = Inr (map (\<lambda>p. (p, 1 / of_nat (length corpus))) (map fst corpus))"
proof (cases "corpus = []")
  case True
  then show ?thesis by (simp add: initial_ranks_def)
next
  case False
  assume d: "distinct (map fst corpus)"
  from False have n0: "(of_nat (length corpus) :: rat) \<noteq> 0" by simp
  show ?thesis
    unfolding initial_ranks_def
    using foldE_assign [OF d, of "[]" "\<lambda>p. 1 / of_nat (length corpus)"]
    by (simp add: py_div_nonzero [OF n0])
qed

lemma iterate_pagerank_keys:
  assumes "distinct (map fst corpus)" and "iterate_pagerank corpus d = Some (Inr r)"
  shows "map fst r = map fst corpus"
proof -
  from assms have "iterate_while corpus d (incoming_index corpus)
      (map (\<lambda>p. (p, 1 / of_nat (length corpus))) (map fst corpus)) 1 = Some (Inr r)"
    by (simp add: iterate_pagerank_def initial_ranks_uniform)
  from iterate_while_keys [OF this refl] show ?thesis by (simp add: o_def)
qed

subsubsection \<open>Validated results\<close>

text \<open>
  \<^verbatim>\<open>transition_model\<close> and \<^verbatim>\<open>sample_pagerank\<close> call the validator before they return;
  \<^verbatim>\<open>iterate_pagerank\<close> does not.
\<close>

lemma check_returns_True: "checkProbabilityDictionary m = Inr b \<Longrightarrow> b"
  by (auto simp: checkProbabilityDictionary_eq split: if_splits)

lemma transition_model_validated:
  "transition_model corpus page d = Inr tm \<Longrightarrow> checkProbabilityDictionary tm = Inr True"
  by (auto simp: transition_model_def bindE_def split: sum.splits if_splits
      dest: check_returns_True)

lemma sample_pagerank_validated:
  "sample_pagerank corpus d n g = Inr est \<Longrightarrow> checkProbabilityDictionary est = Inr True"
  by (auto simp: sample_pagerank_def bindE_def split: sum.splits prod.splits
      dest: check_returns_True)

lemma validated_distribution:
  "checkProbabilityDictionary m = Inr True \<Longrightarrow>
   (\<forall>v \<in> snd ` set m. 0 \<le> v \<and> v \<le> 1) \<and> py_round (sum_list (map snd m)) 3 = 1"
  by (auto simp: checkProbabilityDictionary_eq split: if_splits)

subsubsection \<open>The results of the transition model\<close>

lemma transition_model_sink_result:
  assumes "distinct (map fst corpus)" and "map_of corpus page = Some []"
  shows "transition_model corpus page d =
           Inr (map (\<lambda>p. (p, 1 / of_nat (length corpus))) (map fst corpus))"
proof -
  from assms(2) have ne: "corpus \<noteq> []" by auto
  then have n0: "(of_nat (length corpus) :: rat) \<noteq> 0" by simp
  have n1: "1 \<le> (of_nat (length corpus) :: rat)" using ne
    by (cases corpus) simp_all
  let ?u = "map (\<lambda>p. (p, 1 / of_nat (length corpus) :: rat)) (map fst corpus)"
  have uni: "foldE (\<lambda>p tm. bindE (py_div 1 (of_nat (length corpus))) (\<lambda>v. Inr (AList.update p v tm)))
               (map fst corpus) [] = Inr ?u"
    using foldE_assign [OF assms(1), of "[]" "\<lambda>p. 1 / of_nat (length corpus)"]
    by (simp add: py_div_nonzero [OF n0])
  have s: "sum_list (map snd ?u) = 1"
    using n0 by (simp add: o_def sum_const_map)
  have b: "\<not> (\<exists>v \<in> snd ` set ?u. 1 < v \<or> v < 0)"
    using n1 ne by (auto simp: image_iff divide_le_eq)
  have chk: "checkProbabilityDictionary ?u = Inr True"
    unfolding checkProbabilityDictionary_eq using s b py_round_one by simp
  show ?thesis
    using assms(2) uni chk
    by (simp add: transition_model_def getitem_def py_div_nonzero [OF n0])
qed



lemma transition_model_linked_result:
  assumes keys: "distinct (map fst corpus)"
    and page: "map_of corpus page = Some links"
    and ne: "links \<noteq> []"
    and dl: "distinct links"
    and res: "set links \<subseteq> fst ` set corpus"
    and d0: "0 < d" and d1: "d < 1"
  shows "\<exists>tm. transition_model corpus page d = Inr tm \<and>
           distinct (map fst tm) \<and> fst ` set tm = fst ` set corpus \<and>
           (\<forall>q \<in> set links. map_of tm q =
              Some (d / of_nat (length links) + (1 - d) / of_nat (length corpus))) \<and>
           (\<forall>q \<in> fst ` set corpus - set links. map_of tm q =
              Some ((1 - d) / of_nat (length corpus))) \<and>
           sum_list (map snd tm) = 1"
proof -
  let ?L = "of_nat (length links) :: rat"
  let ?N = "of_nat (length corpus) :: rat"
  let ?r = "(1 - d) / ?N"
  from page have cne: "corpus \<noteq> []" by auto
  have L0: "?L \<noteq> 0" using ne by simp
  have N0: "?N \<noteq> 0" using cne by simp
  have L1: "1 \<le> ?L" using ne by (cases links) simp_all
  have N1: "1 \<le> ?N" using cne by (cases corpus) simp_all
  let ?tm1 = "map (\<lambda>p. (p, d / ?L)) links"
  let ?tm = "fold (\<lambda>p. credit p ?r) (map fst corpus) ?tm1"
  have tm1: "foldE (\<lambda>p tm. bindE (py_div (d * 1) ?L) (\<lambda>v. Inr (AList.update p v tm))) links []
               = Inr ?tm1"
    using foldE_assign [OF dl, of "[]" "\<lambda>p. d / ?L"] by (simp add: py_div_nonzero [OF L0])
  have dtm: "distinct (map fst ?tm)"
    using dl by (intro distinct_fold_credit) (simp add: o_def)
  have ktm: "fst ` set ?tm = fst ` set corpus"
    using res by (auto simp: keys_fold_credit image_iff)
  have look: "map_of ?tm q =
      (if q \<in> fst ` set corpus then Some ((if q \<in> set links then d / ?L else 0) + ?r)
       else None)" for q
    using res by (auto simp: map_of_fold_credit [OF keys] map_of_assigned)
  have sum: "sum_list (map snd ?tm) = 1"
  proof -
    have "sum_list (map snd ?tm) = (\<Sum>k \<in> fst ` set corpus. (if k \<in> set links then d / ?L else 0) + ?r)"
      unfolding sum_list_values [OF dtm] ktm by (intro sum.cong) (simp_all add: look)
    also have "\<dots> = (\<Sum>k \<in> fst ` set corpus. if k \<in> set links then d / ?L else 0)
                   + of_nat (card (fst ` set corpus)) * ?r"
      by (simp add: sum.distrib)
    also have "(\<Sum>k \<in> fst ` set corpus. if k \<in> set links then d / ?L else 0)
                 = (\<Sum>k \<in> set links. d / ?L)"
      using res by (simp add: sum.inter_restrict [symmetric] Int_absorb1)
    also have "\<dots> = ?L * (d / ?L)"
      by (simp add: distinct_card [OF dl])
    also have "card (fst ` set corpus) = length corpus"
      using distinct_card [OF keys] by simp
    finally show ?thesis using L0 N0 by simp
  qed
  have r0: "0 \<le> ?r" and r1: "?r \<le> 1 - d"
    using d1 N1 by (simp_all add: divide_le_eq mult.commute mult_left_le)
  have q0: "0 \<le> d / ?L" and q1: "d / ?L \<le> d"
    using d0 L1 by (simp_all add: divide_le_eq mult.commute mult_left_le)
  have bounds: "\<not> (\<exists>v \<in> snd ` set ?tm. 1 < v \<or> v < 0)"
  proof
    assume "\<exists>v \<in> snd ` set ?tm. 1 < v \<or> v < 0"
    then obtain v where v: "v \<in> snd ` set ?tm" and bad: "1 < v \<or> v < 0" by blast
    from value_lookup [OF dtm v] obtain k where "map_of ?tm k = Some v" by blast
    then have "v = (if k \<in> set links then d / ?L else 0) + ?r"
      by (simp add: look split: if_splits)
    with r0 r1 q0 q1 bad show False by (auto split: if_splits)
  qed
  have chk: "checkProbabilityDictionary ?tm = Inr True"
    unfolding checkProbabilityDictionary_eq using sum bounds py_round_one by simp
  have "transition_model corpus page d = Inr ?tm"
    using page ne tm1 chk
    by (simp add: transition_model_def getitem_def py_div_nonzero [OF N0])
  moreover have "\<forall>q \<in> set links. map_of ?tm q = Some (d / ?L + ?r)"
    using res by (auto simp: look)
  moreover have "\<forall>q \<in> fst ` set corpus - set links. map_of ?tm q = Some ?r"
    by (auto simp: look)
  ultimately show ?thesis using dtm ktm sum by blast
qed


subsubsection \<open>The sampling estimator returns a distribution\<close>

text \<open>
  On a well-formed, non-empty graph, with \<open>0 < d < 1\<close> and \<open>n \<ge> 1\<close>, every pass of the
  sampling loop succeeds whatever the random source delivers, the credits add up to 1
  and the validator accepts the result.
\<close>

lemma transition_model_total:
  assumes wf: "well_formed corpus" and page: "page \<in> fst ` set corpus"
    and d0: "0 < d" and d1: "d < 1"
  shows "\<exists>tm. transition_model corpus page d = Inr tm \<and> fst ` set tm = fst ` set corpus \<and>
           sum_list (map snd tm) = 1"
proof -
  from wf have keys: "distinct (map fst corpus)" by (simp add: well_formed_def)
  from page obtain links where mem: "(page, links) \<in> set corpus" by auto
  with keys have look: "map_of corpus page = Some links" by simp
  from wf mem have dl: "distinct links" and res: "set links \<subseteq> fst ` set corpus"
    by (auto simp: well_formed_def)
  show ?thesis
  proof (cases "links = []")
    case True
    from look True have ne: "corpus \<noteq> []" by auto
    have "sum_list (map snd (map (\<lambda>p. (p, 1 / of_nat (length corpus) :: rat)) (map fst corpus))) = 1"
      using ne by (simp add: o_def sum_const_map)
    moreover have "fst ` set (map (\<lambda>p. (p, 1 / of_nat (length corpus) :: rat)) (map fst corpus))
        = fst ` set corpus" by (force simp: image_iff)
    ultimately show ?thesis
      using transition_model_sink_result [OF keys look [unfolded True], of d] by simp
  next
    case False
    from transition_model_linked_result [OF keys look False dl res d0 d1] show ?thesis by blast
  qed
qed

lemma bisect_pick_mem: "xs \<noteq> [] \<Longrightarrow> bisect_pick x acc xs \<in> fst ` set xs"
  by (induction x acc xs rule: bisect_pick.induct) auto

lemma random_choices_total:
  assumes "length ws = length pop" and "ws \<noteq> []" and "0 < sum_list ws"
  shows "\<exists>p. random_choices g k pop ws = Inr (p, Suc k) \<and> p \<in> set pop"
proof -
  from assms have "zip pop ws \<noteq> []" by (cases pop; cases ws) auto
  from bisect_pick_mem [OF this, of "g k * sum_list ws" 0]
  have "bisect_pick (g k * sum_list ws) 0 (zip pop ws) \<in> set pop"
    using assms(1) by (auto dest: set_zip_leftD)
  with assms show ?thesis by (simp add: random_choices_def)
qed

lemma random_choice_total:
  assumes "seq \<noteq> []"
  shows "\<exists>p. random_choice g k seq = Inr (p, Suc k) \<and> p \<in> set seq"
proof -
  from assms have "min (nat \<lfloor>g k * of_nat (length seq)\<rfloor>) (length seq - 1) < length seq"
    by (cases seq) auto
  then have "seq ! min (nat \<lfloor>g k * of_nat (length seq)\<rfloor>) (length seq - 1) \<in> set seq"
    by (rule nth_mem)
  with assms show ?thesis by (simp add: random_choice_def)
qed

lemma sample_step_total:
  assumes wf: "well_formed corpus" and cur: "cur \<in> fst ` set corpus"
    and d0: "0 < d" and d1: "d < 1" and n: "1 \<le> n"
  shows "\<exists>cur' c k'. sample_step corpus d n g (cur, est, k)
            = Inr (cur', credit c (1 / of_int n) est, k') \<and>
           cur' \<in> fst ` set corpus \<and> c \<in> fst ` set corpus"
proof -
  from transition_model_total [OF wf cur d0 d1] obtain tm
    where tm: "transition_model corpus cur d = Inr tm"
      and ktm: "fst ` set tm = fst ` set corpus" and stm: "sum_list (map snd tm) = 1" by blast
  from cur ktm have tne: "map snd tm \<noteq> []" by auto
  have pick: "\<exists>p. random_choices g j (map fst tm) (map snd tm) = Inr (p, Suc j)
                  \<and> p \<in> fst ` set corpus" for j
    using random_choices_total [of "map snd tm" "map fst tm" g j] tne stm ktm by auto
  from pick [of k] obtain c where c: "random_choices g k (map fst tm) (map snd tm) = Inr (c, Suc k)"
    and cin: "c \<in> fst ` set corpus" by blast
  have n0: "(of_int n :: rat) \<noteq> 0" using n by simp
  obtain m where m: "random_choices g (Suc k) [''sampleFromLinkedPage'', ''sampleFromAllPages'']
       [d, 1 - d] = Inr (m, Suc (Suc k))"
    using random_choices_total [of "[d, 1 - d]" "[''sampleFromLinkedPage'', ''sampleFromAllPages'']"
        g "Suc k"] by auto
  from cur have cne: "map fst corpus \<noteq> []" by auto
  obtain cur' where cur': "(if m = ''sampleFromLinkedPage''
            then random_choices g (Suc (Suc k)) (map fst tm) (map snd tm)
            else random_choice g (Suc (Suc k)) (map fst corpus)) = Inr (cur', Suc (Suc (Suc k)))"
    and cur'in: "cur' \<in> fst ` set corpus"
    using pick [of "Suc (Suc k)"] random_choice_total [OF cne, of g "Suc (Suc k)"]
    by (cases "m = ''sampleFromLinkedPage''") auto
  have "sample_step corpus d n g (cur, est, k)
          = Inr (cur', credit c (1 / of_int n) est, Suc (Suc (Suc k)))"
    unfolding sample_step_def using tm c m cur' by (simp add: py_div_nonzero [OF n0])
  with cur'in cin show ?thesis by blast
qed

lemma sum_list_update:
  "sum_list (map snd (AList.update k v al)) =
     (case map_of al k of None \<Rightarrow> sum_list (map snd al) + v
      | Some old \<Rightarrow> sum_list (map snd al) - old + (v :: rat))"
  by (induction al) (auto split: option.splits)

lemma sum_list_credit: "sum_list (map snd (credit k v d)) = sum_list (map snd d) + v"
  by (simp add: credit_def sum_list_update split: option.splits)

lemma values_update: "snd ` set (AList.update k v al) \<subseteq> insert v (snd ` set al)"
  by (induction al) auto

lemma nonneg_credit:
  assumes "\<forall>v \<in> snd ` set d. 0 \<le> v" and "0 \<le> x"
  shows "\<forall>v \<in> snd ` set (credit k x d). (0::rat) \<le> v"
proof
  fix v assume v: "v \<in> snd ` set (credit k x d)"
  show "0 \<le> v"
  proof (cases "map_of d k")
    case None
    with v have "v \<in> snd ` set (AList.update k x d)" by (simp add: credit_def)
    with values_update [of k x d] have "v \<in> insert x (snd ` set d)" by blast
    with assms show ?thesis by blast
  next
    case (Some old)
    then have "(k, old) \<in> set d" by (rule map_of_SomeD)
    then have "old \<in> snd ` set d" by force
    with assms have new: "0 \<le> old + x" by auto
    from v Some have "v \<in> snd ` set (AList.update k (old + x) d)" by (simp add: credit_def)
    with values_update [of k "old + x" d] have "v \<in> insert (old + x) (snd ` set d)" by blast
    with assms(1) new show ?thesis by blast
  qed
qed

lemma sample_loop_total:
  assumes wf: "well_formed corpus" and d0: "0 < d" and d1: "d < 1" and n: "1 \<le> n"
  shows "cur \<in> fst ` set corpus \<Longrightarrow> \<forall>v \<in> snd ` set est. 0 \<le> v \<Longrightarrow>
         \<exists>cur' est' k'. sample_loop corpus d n g m (cur, est, k) = Inr (cur', est', k') \<and>
           (\<forall>v \<in> snd ` set est'. 0 \<le> v) \<and>
           sum_list (map snd est') = sum_list (map snd est) + of_nat m * (1 / of_int n)"
proof (induction m arbitrary: cur est k)
  case 0
  then show ?case by simp
next
  case (Suc m)
  from sample_step_total [OF wf Suc.prems(1) d0 d1 n, of g est k] obtain cur1 c k1
    where step: "sample_step corpus d n g (cur, est, k) = Inr (cur1, credit c (1 / of_int n) est, k1)"
      and c1: "cur1 \<in> fst ` set corpus" by blast
  have x0: "(0::rat) \<le> 1 / of_int n" using n by simp
  from nonneg_credit [OF Suc.prems(2) x0]
  have nn: "\<forall>v \<in> snd ` set (credit c (1 / of_int n) est). 0 \<le> v" .
  from Suc.IH [OF c1 nn, of k1] obtain cur' est' k' where
    "sample_loop corpus d n g m (cur1, credit c (1 / of_int n) est, k1) = Inr (cur', est', k')"
    "\<forall>v \<in> snd ` set est'. 0 \<le> v"
    "sum_list (map snd est') = sum_list (map snd (credit c (1 / of_int n) est))
        + of_nat m * (1 / of_int n)" by blast
  with step show ?case by (simp add: sum_list_credit algebra_simps add_divide_distrib)
qed

lemma sample_pagerank_total:
  assumes wf: "well_formed corpus" and ne: "corpus \<noteq> []"
    and d0: "0 < d" and d1: "d < 1" and n: "1 \<le> n"
  shows "\<exists>est. sample_pagerank corpus d n g = Inr est \<and>
           (\<forall>v \<in> snd ` set est. 0 \<le> v \<and> v \<le> 1) \<and> sum_list (map snd est) = 1"
proof -
  from ne have kne: "map fst corpus \<noteq> []" by simp
  from random_choice_total [OF kne, of g 0] obtain p
    where p: "random_choice g 0 (map fst corpus) = Inr (p, Suc 0)" and pin: "p \<in> fst ` set corpus"
    by auto
  have n0: "(of_int n :: rat) \<noteq> 0" using n by simp
  have nn0: "\<forall>v \<in> snd ` set [(p, 1 / of_int n :: rat)]. 0 \<le> v" using n by simp
  from sample_loop_total [OF wf d0 d1 n pin nn0, of g "nat (n - 1)" "Suc 0"]
  obtain cur' est k' where
    loop: "sample_loop corpus d n g (nat (n - 1)) (p, [(p, 1 / of_int n)], Suc 0)
             = Inr (cur', est, k')"
    and nn: "\<forall>v \<in> snd ` set est. 0 \<le> v"
    and s: "sum_list (map snd est) = sum_list (map snd [(p, 1 / of_int n :: rat)])
              + of_nat (nat (n - 1)) * (1 / of_int n)" by blast
  have "(of_nat (nat (n - 1)) :: rat) = of_int n - 1" using n by simp
  with s n0 have sum: "sum_list (map snd est) = 1" by (simp add: field_simps)
  have le: "v \<le> 1" if "v \<in> snd ` set est" for v
  proof -
    from that have "v \<in> set (map snd est)" by simp
    moreover have "\<forall>x \<in> set (map snd est). 0 \<le> x" using nn by simp
    ultimately have "v \<le> sum_list (map snd est)" by (intro member_le_sum_list) auto
    with sum show ?thesis by simp
  qed
  have "\<not> (\<exists>v \<in> snd ` set est. 1 < v \<or> v < 0)" using nn le by force
  then have "checkProbabilityDictionary est = Inr True"
    by (simp add: checkProbabilityDictionary_eq sum py_round_one)
  then have "sample_pagerank corpus d n g = Inr est"
    unfolding sample_pagerank_def using p loop by (simp add: py_div_nonzero [OF n0])
  with nn le sum show ?thesis by blast
qed

subsection \<open>The validator\<close>

text \<open>
  C9. \<^verbatim>\<open>checkProbabilityDictionary\<close> raises exactly when some value of the dictionary is
  below 0 or above 1, or when the sum of the values, rounded to three decimal places,
  differs from 1; in every other case it returns \<open>True\<close>. The only errors it raises are
  its two exceptions.
\<close>

theorem checkProbabilityDictionary_fails_iff:
  "((\<exists>e. checkProbabilityDictionary model = Inl e) \<longleftrightarrow>
      ((\<exists>v \<in> snd ` set model. v < 0 \<or> 1 < v) \<or>
       py_round (sum_list (map snd model)) 3 \<noteq> 1)) \<and>
   ((\<nexists>e. checkProbabilityDictionary model = Inl e) \<longleftrightarrow>
      checkProbabilityDictionary model = Inr True) \<and>
   checkProbabilityDictionary model \<in>
     {Inr True, Inl ProbabilityNotInBounds, Inl (SumProbability (sum_list (map snd model)))}"
  unfolding checkProbabilityDictionary_eq by auto

theorem checkProbabilityDictionary_fails_iff_witness:
  "checkProbabilityDictionary [(''A'', 1 / 2), (''B'', 1 / 2)] = Inr True \<and>
   checkProbabilityDictionary [(''A'', 3 / 2), (''B'', - 1 / 2)] = Inl ProbabilityNotInBounds \<and>
   checkProbabilityDictionary [(''A'', 1 / 3), (''B'', 1 / 3), (''C'', 37 / 60)]
     = Inl (SumProbability (77 / 60))"
proof -
  have r: "py_round (77 / 60) 3 = 1283 / 1000"
    by code_simp
  show ?thesis
    using checkProbabilityDictionary_fails_iff [of "[(''A'', 1 / 2), (''B'', 1 / 2)]"]
      checkProbabilityDictionary_fails_iff [of "[(''A'', 3 / 2), (''B'', - 1 / 2)]"]
      checkProbabilityDictionary_fails_iff
        [of "[(''A'', 1 / 3), (''B'', 1 / 3), (''C'', 37 / 60)]"]
    by (simp add: checkProbabilityDictionary_eq py_round_one r)
qed

subsection \<open>The transition model\<close>

text \<open>
  C8. For a page without outgoing links, in a graph of \<open>N\<close> pages, \<^verbatim>\<open>transition_model\<close>
  returns the uniform distribution: every page of the graph, the page itself included,
  gets exactly \<open>1 / N\<close>, whatever the damping factor.
\<close>

theorem transition_model_sink:
  assumes "distinct (map fst corpus)" and "map_of corpus page = Some []"
  shows "transition_model corpus page d =
           Inr (map (\<lambda>p. (p, 1 / of_nat (length corpus))) (map fst corpus))"
  using assms by (rule transition_model_sink_result)

theorem transition_model_sink_witness:
  "distinct (map fst corpus_sink) \<and> map_of corpus_sink ''C'' = Some [] \<and>
   transition_model corpus_sink ''C'' (17 / 20)
     = Inr [(''A'', 1 / 3), (''B'', 1 / 3), (''C'', 1 / 3)]"
proof -
  have h1: "distinct (map fst corpus_sink)" by (simp add: corpus_sink_def)
  have h2: "map_of corpus_sink ''C'' = Some []" by (simp add: corpus_sink_def)
  show ?thesis
    using h1 h2 transition_model_sink [OF h1 h2, of "17 / 20"]
    by (simp add: corpus_sink_def)
qed

text \<open>
  C7. For a page with at least one outgoing link, in a graph whose links all lead to
  pages of the graph, and a damping factor \<open>d\<close> strictly between 0 and 1,
  \<^verbatim>\<open>transition_model\<close> returns a distribution over the pages of the graph that gives every
  linked page \<open>d / |links| + (1 - d) / |graph|\<close> (both contributions, added) and every
  other page \<open>(1 - d) / |graph|\<close>; its values sum to 1.
\<close>

theorem transition_model_linked:
  assumes keys: "distinct (map fst corpus)"
    and page: "map_of corpus page = Some links"
    and ne: "links \<noteq> []"
    and dl: "distinct links"
    and res: "set links \<subseteq> fst ` set corpus"
    and d0: "0 < d" and d1: "d < 1"
  shows "\<exists>tm. transition_model corpus page d = Inr tm \<and>
           distinct (map fst tm) \<and> fst ` set tm = fst ` set corpus \<and>
           (\<forall>q \<in> set links. map_of tm q =
              Some (d / of_nat (length links) + (1 - d) / of_nat (length corpus))) \<and>
           (\<forall>q \<in> fst ` set corpus - set links. map_of tm q =
              Some ((1 - d) / of_nat (length corpus))) \<and>
           sum_list (map snd tm) = 1"
  using assms by (rule transition_model_linked_result)

text \<open>
  The instance of the three-page graph: page \<open>1.html\<close> links to \<open>2.html\<close> and
  \<open>3.html\<close>, and \<open>d = 0.85\<close>. Each linked page gets 0.475, the page itself 0.05.
\<close>

theorem transition_model_linked_witness:
  "distinct (map fst corpus_three) \<and>
   map_of corpus_three ''1.html'' = Some [''2.html'', ''3.html''] \<and>
   set [''2.html'', ''3.html''] \<subseteq> fst ` set corpus_three \<and>
   transition_model corpus_three ''1.html'' (17 / 20)
     = Inr [(''2.html'', 475 / 1000), (''3.html'', 475 / 1000), (''1.html'', 5 / 100)] \<and>
   (475 / 1000 + 475 / 1000 + 5 / 100 :: rat) = 1"
proof -
  have h1: "distinct (map fst corpus_three)" by (simp add: corpus_three_def)
  have h2: "map_of corpus_three ''1.html'' = Some [''2.html'', ''3.html'']"
    by (simp add: corpus_three_def)
  have h3: "[''2.html'', ''3.html''] \<noteq> []" by simp
  have h4: "distinct [''2.html'', ''3.html'']" by simp
  have h5: "set [''2.html'', ''3.html''] \<subseteq> fst ` set corpus_three"
    by (simp add: corpus_three_def)
  have h6: "(0::rat) < 17 / 20" and h7: "(17 / 20 :: rat) < 1" by simp_all
  have run: "transition_model corpus_three ''1.html'' (17 / 20)
     = Inr [(''2.html'', 475 / 1000), (''3.html'', 475 / 1000), (''1.html'', 5 / 100)]"
    by code_simp
  show ?thesis
    using transition_model_linked [OF h1 h2 h3 h4 h5 h6 h7] h1 h2 h5 run by simp
qed

subsection \<open>The empty graph\<close>

text \<open>
  C6, as the code has it. With a graph of zero pages \<^verbatim>\<open>sample_pagerank\<close> raises the
  \<open>IndexError\<close> of \<^verbatim>\<open>random.choice\<close> on an empty list, before any division is reached,
  and \<^verbatim>\<open>iterate_pagerank\<close> raises nothing: its loops over the pages have no pass and it
  returns the empty dictionary.
\<close>

theorem empty_graph_results:
  "sample_pagerank ([] :: 'p corpus) d n g = Inl IndexError \<and>
   iterate_pagerank ([] :: 'p corpus) d = Some (Inr [])"
  by (simp add: sample_pagerank_def random_choice_def iterate_pagerank_def initial_ranks_def
      incoming_index_def iterate_while.simps iterate_round_def)


text \<open>
  \<^verbatim>\<open>iterate_pagerank\<close> on the empty graph, with damping factor 0.85, returns normally.
\<close>

theorem iterate_pagerank_empty_returns:
  "iterate_pagerank ([] :: string corpus) (17 / 20) = Some (Inr [])"
  by (simp add: iterate_pagerank_def initial_ranks_def
      incoming_index_def iterate_while.simps iterate_round_def)



subsection \<open>The iterative solver\<close>

text \<open>
  C10. A page \<open>q\<close> is listed in \<^verbatim>\<open>incomingPages[p]\<close> only when \<open>p\<close> is one of the links of
  \<open>q\<close>, so \<^verbatim>\<open>len(corpus[q])\<close> is not zero for any page the inner loop visits: no round
  raises \<open>ZeroDivisionError\<close>, whatever the ranks it starts from, and neither does
  \<^verbatim>\<open>iterate_pagerank\<close>.
\<close>

theorem incoming_divisor_nonzero:
  assumes "distinct (map fst corpus)"
  shows "(\<forall>p qs q. map_of (incoming_index corpus) p = Some qs \<longrightarrow> q \<in> set qs \<longrightarrow>
            (\<exists>links. map_of corpus q = Some links \<and> p \<in> set links \<and> length links \<noteq> 0))
         \<and> (\<forall>ranks. iterate_round corpus d (incoming_index corpus) ranks
                \<noteq> Inl ZeroDivisionError)
         \<and> iterate_pagerank corpus d \<noteq> Some (Inl ZeroDivisionError)"
proof (intro conjI)
  show idx: "\<forall>p qs q. map_of (incoming_index corpus) p = Some qs \<longrightarrow> q \<in> set qs \<longrightarrow>
            (\<exists>links. map_of corpus q = Some links \<and> p \<in> set links \<and> length links \<noteq> 0)"
  proof (intro allI impI)
    fix p qs q
    assume "map_of (incoming_index corpus) p = Some qs" and "q \<in> set qs"
    from incoming_index_sound [OF this] obtain links
      where "(q, links) \<in> set corpus" and "p \<in> set links" by blast
    with assms show "\<exists>links. map_of corpus q = Some links \<and> p \<in> set links \<and> length links \<noteq> 0"
      by auto
  qed
  show round: "\<forall>ranks. iterate_round corpus d (incoming_index corpus) ranks
                 \<noteq> Inl ZeroDivisionError"
  proof (intro allI notI)
    fix ranks
    assume "iterate_round corpus d (incoming_index corpus) ranks = Inl ZeroDivisionError"
    from foldE_Inl [OF this [unfolded iterate_round_def]] obtain p st
      where p: "p \<in> set (map fst corpus)"
        and e: "iterate_page corpus d (incoming_index corpus) p st = Inl ZeroDivisionError"
      by blast
    from p have ne: "corpus \<noteq> []" by auto
    have "ZeroDivisionError = KeyError"
    proof (rule iterate_page_errors [OF ne _ e])
      fix qs q assume "map_of (incoming_index corpus) p = Some qs" and "q \<in> set qs"
      with idx show "\<exists>links. map_of corpus q = Some links \<and> links \<noteq> []" by fastforce
    qed
    then show False by simp
  qed
  show "iterate_pagerank corpus d \<noteq> Some (Inl ZeroDivisionError)"
  proof
    assume bad: "iterate_pagerank corpus d = Some (Inl ZeroDivisionError)"
    obtain r0 where r0: "initial_ranks corpus = Inr r0"
      using initial_ranks_returns by blast
    with bad have "iterate_while corpus d (incoming_index corpus) r0 1
                     = Some (Inl ZeroDivisionError)"
      by (simp add: iterate_pagerank_def)
    from iterate_while_error [OF this] obtain r
      where "iterate_round corpus d (incoming_index corpus) r = Inl ZeroDivisionError" by blast
    with round show False by blast
  qed
qed

theorem incoming_divisor_nonzero_witness:
  "distinct (map fst corpus_three) \<and>
   map_of (incoming_index corpus_three) ''2.html'' = Some [''1.html'', ''3.html''] \<and>
   map_of corpus_three ''3.html'' = Some [''2.html''] \<and>
   iterate_round corpus_three (17 / 20) (incoming_index corpus_three)
       [(''1.html'', 1 / 3), (''2.html'', 1 / 3), (''3.html'', 1 / 3)]
     \<noteq> Inl ZeroDivisionError \<and>
   iterate_pagerank corpus_three (17 / 20) \<noteq> Some (Inl ZeroDivisionError)"
proof -
  have h: "distinct (map fst corpus_three)" by (simp add: corpus_three_def)
  have idx: "map_of (incoming_index corpus_three) ''2.html'' = Some [''1.html'', ''3.html'']"
    by code_simp
  have out: "map_of corpus_three ''3.html'' = Some [''2.html'']"
    by (simp add: corpus_three_def)
  show ?thesis
    using incoming_divisor_nonzero [OF h, of "17 / 20"] h idx out by simp
qed

text \<open>
  C3, as the code has it. A round visits the pages in the order of the graph and stores
  each new rank at once, in the one dictionary it also reads. The new rank of the page
  at position \<open>i\<close>, when it has incoming links, is
  \<open>(1 - d) / |graph| + \<Sum> d * rank(q) / |outLinks(q)|\<close> over its incoming pages \<open>q\<close>, where
  \<open>rank(q)\<close> is the value that \<open>q\<close> has at the end of this round if \<open>q\<close> stands before
  position \<open>i\<close>, and the value of the previous round otherwise.
\<close>

theorem iterate_round_in_place:
  assumes "distinct (map fst corpus)"
    and "iterate_round corpus d inc ranks = Inr (ranks', change)"
    and "i < length corpus"
    and "map_of inc (fst (corpus ! i)) = Some qs"
  shows "map_of ranks' (fst (corpus ! i)) =
           Some ((1 - d) / of_nat (length corpus)
                 + sum_list (map (link_term corpus d
                     (working_rank (take i (map fst corpus)) ranks ranks')) qs))"
  using round_in_place [OF assms(1) assms(2) [unfolded iterate_round_def], of i qs] assms(3,4)
  by simp


theorem iterate_round_in_place_witness:
  "distinct (map fst corpus_cycle) \<and>
   iterate_round corpus_cycle (17 / 20) (incoming_index corpus_cycle)
       [(''A'', 1 / 3), (''B'', 1 / 3), (''C'', 1 / 3)]
     = Inr ([(''A'', 1 / 3), (''B'', 23 / 120), (''C'', 851 / 2400)], 391 / 2400) \<and>
   map_of (incoming_index corpus_cycle) (fst (corpus_cycle ! 2)) = Some [''A'', ''B''] \<and>
   map_of [(''A'', 1 / 3), (''B'', 23 / 120), (''C'', 851 / 2400 :: rat)]
       (fst (corpus_cycle ! 2))
     = Some ((1 - 17 / 20) / 3 + (17 / 20 * (1 / 3) / 2 + 17 / 20 * (23 / 120) / 1))"
proof -
  have h1: "distinct (map fst corpus_cycle)" by (simp add: corpus_cycle_def)
  have h2: "iterate_round corpus_cycle (17 / 20) (incoming_index corpus_cycle)
       [(''A'', 1 / 3), (''B'', 1 / 3), (''C'', 1 / 3)]
     = Inr ([(''A'', 1 / 3), (''B'', 23 / 120), (''C'', 851 / 2400)], 391 / 2400)"
    by code_simp
  have h3: "2 < length corpus_cycle" by (simp add: corpus_cycle_def)
  have h4: "map_of (incoming_index corpus_cycle) (fst (corpus_cycle ! 2)) = Some [''A'', ''B'']"
    by code_simp
  show ?thesis
    using iterate_round_in_place [OF h1 h2 h3 h4] h1 h2 h4
    by (simp add: corpus_cycle_def link_term_def working_rank_def)
qed

text \<open>
  The first round on a three-page graph, from the initial ranks \<open>1/3\<close>, with \<open>d = 0.85\<close>:
  page \<open>C\<close>, visited last, reads the rank \<open>23/120\<close> that page \<open>B\<close> got earlier in the same
  round and ends at \<open>851/2400\<close>; computed from the snapshot of the previous round it
  would be \<open>19/40\<close>.
\<close>

theorem iterate_round_reads_updated_rank:
  "iterate_round corpus_cycle (17 / 20) (incoming_index corpus_cycle)
       [(''A'', 1 / 3), (''B'', 1 / 3), (''C'', 1 / 3)]
     = Inr ([(''A'', 1 / 3), (''B'', 23 / 120), (''C'', 851 / 2400)], 391 / 2400) \<and>
   snapshot_round corpus_cycle (17 / 20) (incoming_index corpus_cycle)
       [(''A'', 1 / 3), (''B'', 1 / 3), (''C'', 1 / 3)]
     = [(''A'', 1 / 3), (''B'', 23 / 120), (''C'', 19 / 40)] \<and>
   initial_ranks corpus_cycle = Inr [(''A'', 1 / 3), (''B'', 1 / 3), (''C'', 1 / 3)]"
  by code_simp

text \<open>
  C2 on the code. Page \<open>A\<close> of the graph \<open>A \<rightarrow> B\<close> has no incoming links. With \<open>d = 0.85\<close>
  the base term is \<open>(1 - d) / 2 = 0.075\<close>, and \<^verbatim>\<open>iterate_pagerank\<close> returns the rank \<open>1/2\<close>
  for \<open>A\<close>: the \<^verbatim>\<open>continue\<close> leaves the initial rank in place.
\<close>

theorem iterate_pagerank_no_incoming_keeps_initial_rank:
  "iterate_pagerank corpus_chain (17 / 20) = Some (Inr [(''A'', 1 / 2), (''B'', 1 / 2)]) \<and>
   map_of (incoming_index corpus_chain) ''A'' = None \<and>
   ((1 - 17 / 20) / 2 :: rat) = 3 / 40"
  by code_simp

text \<open>
  C1 on the code. On a graph of three pages whose links all lead to pages of the graph,
  with \<open>d = 0.85\<close>, \<^verbatim>\<open>iterate_pagerank\<close> returns ranks that sum to \<open>77/60\<close>; the validator,
  which \<^verbatim>\<open>iterate_pagerank\<close> does not call, rejects them.
\<close>

theorem iterate_pagerank_sum_not_one:
  "iterate_pagerank corpus_sink (17 / 20)
     = Some (Inr [(''A'', 1 / 3), (''B'', 1 / 3), (''C'', 37 / 60)]) \<and>
   checkProbabilityDictionary [(''A'', 1 / 3), (''B'', 1 / 3), (''C'', 37 / 60 :: rat)]
     = Inl (SumProbability (77 / 60))"
  by code_simp

subsection \<open>The sampling estimator\<close>

text \<open>
  C5 on the code. With \<open>n = 1\<close> on a graph of two pages, \<^verbatim>\<open>sample_pagerank\<close> returns a
  dictionary with one key, whatever the random source: a page that was never drawn is
  no key of the result.
\<close>

theorem sample_pagerank_misses_pages:
  "\<exists>p. sample_pagerank corpus_pair (17 / 20) 1 g = Inr [(p, 1)]"
  by (simp add: sample_pagerank_def random_choice_def corpus_pair_def py_div_def
      checkProbabilityDictionary_eq py_round_one)

text \<open>
  C4 on the code. One pass of the loop, from the current page \<open>A\<close>: the page drawn from
  the transition distribution of \<open>A\<close>, here \<open>B\<close>, is credited \<open>1/n\<close>; the page that the
  two-stage selection draws afterwards, here \<open>C\<close>, becomes the current page of the next
  pass and is not credited.
\<close>

theorem sample_step_credits_other_page:
  "sample_step corpus_loop (17 / 20) 2 draws (''A'', [(''A'', 1 / 2)], 1)
     = Inr (''C'', [(''A'', 1 / 2), (''B'', 1 / 2)], 4) \<and>
   sample_pagerank corpus_loop (17 / 20) 3 draws = Inr [(''A'', 2 / 3), (''B'', 1 / 3)]"
  by code_simp

end
